theory Spec2Isabelle
  imports Complex_Main "HOL-Library.AList" "HOL-Library.Sublist"
begin

section \<open>Data model of the aggregation engine (backend/app\_logic.py)\<close>

text \<open>
  A Python \<open>dict\<close> is an association list in insertion order: \<^const>\<open>map_of\<close> is
  \<open>d.get(k)\<close>, \<^const>\<open>AList.update\<close> is \<open>d[k] = v\<close> (it replaces the value in place, or
  appends a new key at the end, as a Python dict does) and \<^const>\<open>AList.delete\<close> is
  \<open>del d[k]\<close>. Nested dictionaries are held by value: the summaries and mention lists of
  this program are trees, no two entries share a nested object.
  Strings are lists of characters; counts are Python's unbounded integers.
\<close>

type_synonym counts = "(string \<times> int) list"
type_synonym summary = "(string \<times> (string \<times> counts) list) list"

datatype pyval = PyNone | PyStr string | PyInt int

type_synonym mention = "(string \<times> pyval) list"
type_synonym opinion = "(string \<times> string) list"
type_synonym metadata = "(string \<times> pyval) list"

datatype py_exn = TypeError | ValueError | OverflowError | OSError | KeyError

definition has_key :: "('k \<times> 'v) list \<Rightarrow> 'k \<Rightarrow> bool" where
  "has_key d k = (map_of d k \<noteq> None)"

definition get_or :: "('k \<times> 'v) list \<Rightarrow> 'k \<Rightarrow> 'v \<Rightarrow> 'v" where
  "get_or d k dflt = (case map_of d k of Some v \<Rightarrow> v | None \<Rightarrow> dflt)"

text \<open>\<open>meta.get(k)\<close>: the value, or \<open>None\<close> for a missing key.\<close>

definition meta_get :: "metadata \<Rightarrow> string \<Rightarrow> pyval" where
  "meta_get meta k = get_or meta k PyNone"

definition opt_str :: "string option \<Rightarrow> pyval" where
  "opt_str v = (case v of None \<Rightarrow> PyNone | Some s \<Rightarrow> PyStr s)"

text \<open>
  Lines 104 to 107 and 166 to 168: the dict comprehension over \<open>tesa_id2label.values()\<close>
  (a repeated label keeps its first position), then \<open>["UNKNOWN"] = 0\<close>.
\<close>

definition new_bucket :: "string list \<Rightarrow> counts" where
  "new_bucket labels =
     AList.update ''UNKNOWN'' 0 (fold (\<lambda>label_name d. AList.update label_name 0 d) labels [])"

definition set_bucket :: "summary \<Rightarrow> string \<Rightarrow> string \<Rightarrow> counts \<Rightarrow> summary" where
  "set_bucket final e d b = AList.update e (AList.update d b (get_or final e [])) final"

definition make_mention ::
  "metadata \<Rightarrow> string \<Rightarrow> pyval \<Rightarrow> string \<Rightarrow> string option \<Rightarrow> string \<Rightarrow> mention" where
  "make_mention meta date_key date_ts entity_normalized entity_original polarity =
     [(''entity_normalized'', PyStr entity_normalized),
      (''entity_original'', opt_str entity_original),
      (''polarity'', PyStr polarity),
      (''date'', PyStr date_key),
      (''timestamp'', date_ts),
      (''source_type'', meta_get meta ''source_type''),
      (''source_id'', meta_get meta ''source_id''),
      (''post_id_if_comment'', meta_get meta ''post_id_parent''),
      (''group_name'', meta_get meta ''group_name''),
      (''text_preview'', meta_get meta ''original_text_preview'')]"

text \<open>
  The body of the inner loop of \<open>_aggregate_nlp_results\<close> (lines 93 to 125) for one
  opinion pair. \<open>not entity_normalized or not polarity\<close> holds for a missing key and for the
  empty string. Line 112 reads \<open>["UNKNOWN"]\<close> of the bucket, which raises \<open>KeyError\<close> when
  the bucket has no such key.
\<close>

definition add_opinion ::
  "string list \<Rightarrow> metadata \<Rightarrow> string \<Rightarrow> pyval \<Rightarrow> summary \<times> mention list \<Rightarrow> opinion
     \<Rightarrow> py_exn + summary \<times> mention list" where
  "add_opinion labels meta date_key date_ts st opinion_pair =
     (case (map_of opinion_pair ''entity'', map_of opinion_pair ''polarity'') of
        (Some entity_normalized, Some polarity) \<Rightarrow>
          if entity_normalized = [] \<or> polarity = [] then Inr st
          else
            let final0 = fst st;
                final1 = (if has_key final0 entity_normalized then final0
                          else AList.update entity_normalized [] final0);
                final2 = (if has_key (get_or final1 entity_normalized []) date_key then final1
                          else set_bucket final1 entity_normalized date_key (new_bucket labels));
                bucket = get_or (get_or final2 entity_normalized []) date_key [];
                m = make_mention meta date_key date_ts entity_normalized
                      (map_of opinion_pair ''entity_original'') polarity
            in if has_key bucket polarity then
                 Inr (set_bucket final2 entity_normalized date_key
                        (AList.update polarity (get_or bucket polarity 0 + 1) bucket),
                      snd st @ [m])
               else (case map_of bucket ''UNKNOWN'' of
                       None \<Rightarrow> Inl KeyError
                     | Some n \<Rightarrow>
                         Inr (set_bucket final2 entity_normalized date_key
                                (AList.update ''UNKNOWN'' (n + 1) bucket),
                              snd st @ [m]))
      | _ \<Rightarrow> Inr st)"

fun add_opinions ::
  "string list \<Rightarrow> metadata \<Rightarrow> string \<Rightarrow> pyval \<Rightarrow> summary \<times> mention list \<Rightarrow> opinion list
     \<Rightarrow> py_exn + summary \<times> mention list" where
  "add_opinions labels meta date_key date_ts st [] = Inr st"
| "add_opinions labels meta date_key date_ts st (opinion_pair # rest) =
     (case add_opinion labels meta date_key date_ts st opinion_pair of
        Inl x \<Rightarrow> Inl x
      | Inr st' \<Rightarrow> add_opinions labels meta date_key date_ts st' rest)"

text \<open>
  The outer loop (lines 78 to 92). The two lists are walked in step, which is
  \<open>enumerate\<close> with the test \<open>i >= len(metadata_for_nlp)\<close>. The parameter \<open>strftime\<close> is
  \<open>datetime.fromtimestamp(date_ts).strftime("%Y-%m-%d")\<close>, which depends on the local time
  zone and the platform; it returns the date key or raises. \<open>TypeError\<close> and \<open>ValueError\<close>
  are caught (the text is skipped); any other exception leaves the function.
\<close>

fun aggregate_texts ::
  "string list \<Rightarrow> (pyval \<Rightarrow> py_exn + string) \<Rightarrow> opinion list list \<Rightarrow> metadata list
     \<Rightarrow> summary \<times> mention list \<Rightarrow> py_exn + summary \<times> mention list" where
  "aggregate_texts labels strftime [] metas st = Inr st"
| "aggregate_texts labels strftime (text_opinions # rest) [] st =
     aggregate_texts labels strftime rest [] st"
| "aggregate_texts labels strftime (text_opinions # rest) (meta # metas) st =
     (let date_ts = meta_get meta ''date_timestamp''
      in if date_ts = PyNone then aggregate_texts labels strftime rest metas st
         else (case strftime date_ts of
                 Inl exn \<Rightarrow>
                   if exn = TypeError \<or> exn = ValueError
                   then aggregate_texts labels strftime rest metas st
                   else Inl exn
               | Inr date_key \<Rightarrow>
                   (case add_opinions labels meta date_key date_ts st text_opinions of
                      Inl x \<Rightarrow> Inl x
                    | Inr st' \<Rightarrow> aggregate_texts labels strftime rest metas st')))"

definition aggregate_nlp_results ::
  "string list \<Rightarrow> (pyval \<Rightarrow> py_exn + string) \<Rightarrow> opinion list list \<Rightarrow> metadata list
     \<Rightarrow> py_exn + summary \<times> mention list" where
  "aggregate_nlp_results labels strftime nlp_results_per_text metadata_for_nlp =
     aggregate_texts labels strftime nlp_results_per_text metadata_for_nlp ([], [])"

text \<open>The quantities the claims speak about.\<close>

definition bucket_sum :: "counts \<Rightarrow> int" where
  "bucket_sum b = sum_list (map snd b)"

definition bucket_total :: "summary \<Rightarrow> string \<Rightarrow> string \<Rightarrow> int" where
  "bucket_total s e d =
     (case map_of s e of None \<Rightarrow> 0
      | Some by_date \<Rightarrow> (case map_of by_date d of None \<Rightarrow> 0 | Some b \<Rightarrow> bucket_sum b))"

definition mention_count :: "mention list \<Rightarrow> string \<Rightarrow> string \<Rightarrow> nat" where
  "mention_count ms e d =
     length (filter (\<lambda>m. map_of m ''entity_normalized'' = Some (PyStr e)
                        \<and> map_of m ''date'' = Some (PyStr d)) ms)"

definition agg_inv :: "summary \<times> mention list \<Rightarrow> bool" where
  "agg_inv st = (\<forall>e d. bucket_total (fst st) e d = int (mention_count (snd st) e d))"

text \<open>Every bucket of a summary has the key \<open>UNKNOWN\<close>.\<close>

definition unknown_inv :: "summary \<Rightarrow> bool" where
  "unknown_inv s = (\<forall>e by_date d b. map_of s e = Some by_date \<longrightarrow> map_of by_date d = Some b
                      \<longrightarrow> has_key b ''UNKNOWN'')"

section \<open>Alias merge (reaggregate\_with\_aliases)\<close>

text \<open>
  \<open>str.strip()\<close> removes leading and trailing whitespace. Characters are code points
  below 256; among them Python's \<open>str.isspace\<close> holds for 9 to 13, 28 to 32, 133 and 160.
\<close>

definition is_space :: "char \<Rightarrow> bool" where
  "is_space c = ((of_char c :: nat) \<in> {9, 10, 11, 12, 13, 28, 29, 30, 31, 32, 133, 160})"

definition strip :: "string \<Rightarrow> string" where
  "strip s = rev (dropWhile is_space (rev (dropWhile is_space s)))"

text \<open>Lines 169 to 171: one sentiment count of the alias is added into the canonical bucket.\<close>

definition add_count :: "counts \<Rightarrow> string \<times> int \<Rightarrow> counts" where
  "add_count bucket sc = AList.update (fst sc) (get_or bucket (fst sc) 0 + snd sc) bucket"

text \<open>
  Lines 165 to 171, on the dictionary \<open>new_summary[canonical_name]\<close>: one date bucket of
  the alias is merged into it.
\<close>

definition merge_date ::
  "string list \<Rightarrow> (string \<times> counts) list \<Rightarrow> string \<times> counts \<Rightarrow> (string \<times> counts) list" where
  "merge_date labels canon item =
     (let date_key = fst item; sentiment_counts = snd item;
          canon1 = (if has_key canon date_key then canon
                    else AList.update date_key (new_bucket labels) canon)
      in AList.update date_key
           (fold (\<lambda>sc b. add_count b sc) sentiment_counts (get_or canon1 date_key []))
           canon1)"

text \<open>Lines 161 to 174: the body of the loop over the aliases.\<close>

definition merge_alias :: "string list \<Rightarrow> string \<Rightarrow> summary \<Rightarrow> string \<Rightarrow> summary" where
  "merge_alias labels canonical_name new_summary alias =
     (if alias = canonical_name then new_summary
      else (case map_of new_summary alias of
              None \<Rightarrow> new_summary
            | Some by_date \<Rightarrow>
                AList.delete alias
                  (AList.update canonical_name
                     (fold (\<lambda>item canon. merge_date labels canon item) by_date
                        (get_or new_summary canonical_name []))
                     new_summary)))"

text \<open>Lines 158 to 174, on the copy of the summary.\<close>

definition merge_summary :: "string list \<Rightarrow> string list \<Rightarrow> string \<Rightarrow> summary \<Rightarrow> summary" where
  "merge_summary labels aliases_to_merge canonical_name s =
     fold (\<lambda>alias new_summary. merge_alias labels canonical_name new_summary alias)
       aliases_to_merge
       (if has_key s canonical_name then s else AList.update canonical_name [] s)"

text \<open>
  Lines 175 to 177. \<open>mention.get("entity") in aliases_to_merge\<close> holds only for a string
  value that is one of the aliases; the record is then given \<open>["entity"] = canonical_name\<close>.
\<close>

definition rewrite_mention :: "string list \<Rightarrow> string \<Rightarrow> mention \<Rightarrow> mention" where
  "rewrite_mention aliases_to_merge canonical_name m =
     (case map_of m ''entity'' of
        Some (PyStr e) \<Rightarrow>
          if e \<in> set aliases_to_merge then AList.update ''entity'' (PyStr canonical_name) m
          else m
      | _ \<Rightarrow> m)"

definition rewrite_mentions :: "string list \<Rightarrow> string \<Rightarrow> mention list \<Rightarrow> mention list" where
  "rewrite_mentions aliases_to_merge canonical_name ms =
     map (rewrite_mention aliases_to_merge canonical_name) ms"

definition reaggregate_with_aliases ::
  "string list \<Rightarrow> summary \<Rightarrow> mention list \<Rightarrow> string list \<Rightarrow> string
     \<Rightarrow> summary \<times> mention list" where
  "reaggregate_with_aliases labels current_summary current_detailed_mentions
       aliases_to_merge canonical_name =
     (if strip canonical_name = [] then (current_summary, current_detailed_mentions)
      else (merge_summary labels aliases_to_merge canonical_name current_summary,
            rewrite_mentions aliases_to_merge canonical_name current_detailed_mentions))"

definition dates_total :: "(string \<times> counts) list \<Rightarrow> int" where
  "dates_total by_date = sum_list (map (\<lambda>item. bucket_sum (snd item)) by_date)"

text \<open>The sum of all counts under an entity; an entity that is no key has none.\<close>

definition entity_total :: "summary \<Rightarrow> string \<Rightarrow> int" where
  "entity_total s e = (case map_of s e of None \<Rightarrow> 0 | Some by_date \<Rightarrow> dates_total by_date)"

subsection \<open>The same function on a store of objects\<close>

text \<open>
  Whether a result is the caller's object or a copy is a question of object identity. The
  store is a list of objects, an address is an index, and a new object is appended.
  The two collections are objects; what they contain is held by value, so
  \<open>copy.deepcopy\<close>, which copies every level, is a new object with an equal value.
  The early return of line 155 hands back the two addresses it was given.
\<close>

datatype obj = SummaryObj summary | MentionsObj "mention list"

type_synonym heap = "obj list"

definition summary_of :: "obj \<Rightarrow> summary" where
  "summary_of x = (case x of SummaryObj s \<Rightarrow> s | MentionsObj ms \<Rightarrow> [])"

definition mentions_of :: "obj \<Rightarrow> mention list" where
  "mentions_of x = (case x of MentionsObj ms \<Rightarrow> ms | SummaryObj s \<Rightarrow> [])"

definition deepcopy :: "heap \<Rightarrow> nat \<Rightarrow> heap \<times> nat" where
  "deepcopy h a = (h @ [h ! a], length h)"

definition reaggregate_with_aliases_heap ::
  "string list \<Rightarrow> heap \<Rightarrow> nat \<Rightarrow> nat \<Rightarrow> string list \<Rightarrow> string \<Rightarrow> heap \<times> nat \<times> nat" where
  "reaggregate_with_aliases_heap labels h current_summary current_detailed_mentions
       aliases_to_merge canonical_name =
     (if strip canonical_name = [] then (h, current_summary, current_detailed_mentions)
      else
        let (h1, new_summary) = deepcopy h current_summary;
            (h2, new_detailed_mentions) = deepcopy h1 current_detailed_mentions;
            h3 = h2[new_summary := SummaryObj
                   (merge_summary labels aliases_to_merge canonical_name
                      (summary_of (h2 ! new_summary)))];
            h4 = h3[new_detailed_mentions := MentionsObj
                   (rewrite_mentions aliases_to_merge canonical_name
                      (mentions_of (h3 ! new_detailed_mentions)))]
        in (h4, new_summary, new_detailed_mentions))"

text \<open>
  A returned pair of addresses denotes independent copies when both objects were created by
  the call and differ from each other.
\<close>

definition independent_copies :: "heap \<Rightarrow> heap \<times> nat \<times> nat \<Rightarrow> bool" where
  "independent_copies h r =
     (length h \<le> fst (snd r) \<and> length h \<le> snd (snd r) \<and> fst (snd r) \<noteq> snd (snd r)
      \<and> fst (snd r) < length (fst r) \<and> snd (snd r) < length (fst r))"

subsection \<open>Example data\<close>

definition demo_labels :: "string list" where
  "demo_labels = [''POS'', ''NEG'', ''NEU'']"

definition demo_strftime :: "pyval \<Rightarrow> py_exn + string" where
  "demo_strftime v =
     (case v of
        PyInt n \<Rightarrow> if n = 1700000000 then Inr ''2023-11-14'' else Inl OverflowError
      | PyStr s \<Rightarrow> Inl TypeError
      | PyNone \<Rightarrow> Inl TypeError)"

definition demo_judgments :: "opinion list list" where
  "demo_judgments =
     [[[(''entity'', ''ivanov i''), (''polarity'', ''POS'')],
       [(''entity'', ''ivanov''), (''polarity'', ''odd'')]]]"

definition demo_metadata :: "metadata list" where
  "demo_metadata = [[(''date_timestamp'', PyInt 1700000000)]]"

definition demo_mentions :: "mention list" where
  "demo_mentions =
     [make_mention [(''date_timestamp'', PyInt 1700000000)] ''2023-11-14'' (PyInt 1700000000)
        ''ivanov i'' None ''POS'',
      make_mention [(''date_timestamp'', PyInt 1700000000)] ''2023-11-14'' (PyInt 1700000000)
        ''ivanov'' None ''odd'']"

definition demo_summary :: summary where
  "demo_summary =
     [(''ivanov i'', [(''2023-11-14'', [(''POS'', 1), (''NEG'', 0), (''NEU'', 0), (''UNKNOWN'', 0)])]),
      (''ivanov'', [(''2023-11-14'', [(''POS'', 0), (''NEG'', 0), (''NEU'', 0), (''UNKNOWN'', 1)])])]"

definition demo_heap :: heap where
  "demo_heap = [SummaryObj demo_summary, MentionsObj demo_mentions]"

section \<open>The wire client (backend/vk\_parser/parser.py, AsyncVKAPI)\<close>

text \<open>
  One attempt posts the request. The post, \<open>response.text()\<close>, \<open>response.json()\<close> or
  \<open>response.raise_for_status()\<close> may raise \<open>aiohttp.ClientError\<close>, which line 110 catches;
  any other exception raised there leaves \<open>_call_method\<close>. Otherwise there is a response:
  its \<open>Content-Type\<close> header (the empty string when absent), its HTTP status and the parsed
  JSON body, an object that may hold \<open>"error"\<close> and \<open>"response"\<close>.
  \<open>raise_for_status\<close> raises \<open>ClientResponseError\<close>, a \<open>ClientError\<close>, for a status of 400 or
  more. \<open>max_retries\<close> is a count: with 0 the loop body never runs. The delays are
  real numbers of seconds.
\<close>

record api_error =
  error_code :: "int option"
  error_msg :: "string option"

record 'p api_data =
  data_error :: "api_error option"
  data_response :: "'p option"

record 'p http_response =
  content_type :: string
  status :: nat
  json :: "'p api_data"

datatype 'p post_outcome = ClientError | OtherException | Response "'p http_response"

record client =
  max_retries :: nat
  base_retry_delay_s :: real
  rate_limit_delay_s :: real
  delay_after_api_call_seconds :: "real option"

datatype vk_failure =
    UnexpectedContentType
  | ApiError string "int option"
  | ApiErrorNotResolved string "int option"
  | NetworkError
  | RetriesExhausted
  | Propagated

datatype event = Post nat | Backoff real | Politeness real

datatype 'p step = Done "vk_failure + 'p option" "event list" | Retry "event list"

text \<open>Lines 110 to 115, the handler of \<open>aiohttp.ClientError\<close>.\<close>

definition on_client_error :: "client \<Rightarrow> nat \<Rightarrow> 'p step" where
  "on_client_error c attempt =
     (if attempt = max_retries c - 1 then Done (Inl NetworkError) []
      else Retry [Backoff (base_retry_delay_s c * 2 ^ attempt)])"

text \<open>Lines 95 to 106, for a body that holds \<open>"error"\<close>.\<close>

definition on_api_error :: "client \<Rightarrow> api_error \<Rightarrow> nat \<Rightarrow> 'p step" where
  "on_api_error c error_info attempt =
     (let code = error_code error_info;
          msg = (case error_msg error_info of None \<Rightarrow> ''Unknown API error'' | Some m \<Rightarrow> m)
      in if code = Some 6 then
           (if attempt = max_retries c - 1
            then Done (Inl (ApiErrorNotResolved msg code))
                   [Backoff (base_retry_delay_s c * 2 ^ attempt)]
            else Retry [Backoff (base_retry_delay_s c * 2 ^ attempt)])
         else if code = Some 29 then
           (if attempt = max_retries c - 1
            then Done (Inl (ApiErrorNotResolved msg code))
                   [Backoff (rate_limit_delay_s c + real attempt * 5)]
            else Retry [Backoff (rate_limit_delay_s c + real attempt * 5)])
         else Done (Inl (ApiError msg code)) [])"

text \<open>The body of the loop, lines 84 to 115, for the attempt numbered \<open>attempt\<close>.\<close>

definition attempt_body :: "client \<Rightarrow> 'p post_outcome \<Rightarrow> nat \<Rightarrow> 'p step" where
  "attempt_body c outcome attempt =
     (case outcome of
        OtherException \<Rightarrow> Done (Inl Propagated) []
      | ClientError \<Rightarrow> on_client_error c attempt
      | Response response \<Rightarrow>
          if \<not> sublist ''application/json'' (content_type response) then
            (if attempt < max_retries c - 1
             then Retry [Backoff (base_retry_delay_s c * 2 ^ attempt)]
             else Done (Inl UnexpectedContentType) [])
          else if 400 \<le> status response then on_client_error c attempt
          else (case data_error (json response) of
                  Some error_info \<Rightarrow> on_api_error c error_info attempt
                | None \<Rightarrow>
                    Done (Inr (data_response (json response)))
                      (case delay_after_api_call_seconds c of
                         None \<Rightarrow> []
                       | Some d \<Rightarrow> [Politeness d])))"

definition then_events :: "event list \<Rightarrow> 'a \<times> event list \<Rightarrow> 'a \<times> event list" where
  "then_events evs r = (fst r, evs @ snd r)"

text \<open>
  \<open>for attempt in range(self.max_retries)\<close>, from \<open>attempt\<close> on, and lines 116 to 118 after
  the loop. \<open>wire\<close> gives what the post of each attempt meets. The result is what
  \<open>_call_method\<close> returns or raises, with the posts and sleeps in the order they happen.
\<close>

function call_loop ::
  "client \<Rightarrow> (nat \<Rightarrow> 'p post_outcome) \<Rightarrow> nat \<Rightarrow> (vk_failure + 'p option) \<times> event list" where
  "call_loop c wire attempt =
     (if max_retries c \<le> attempt then (Inl RetriesExhausted, [])
      else (case attempt_body c (wire attempt) attempt of
              Done res evs \<Rightarrow> (res, Post attempt # evs)
            | Retry evs \<Rightarrow> then_events (Post attempt # evs) (call_loop c wire (Suc attempt))))"
  by pat_completeness auto
termination
  by (relation "measure (\<lambda>(c, wire, attempt). max_retries c - attempt)") auto

declare call_loop.simps [simp del]

definition call_method ::
  "client \<Rightarrow> (nat \<Rightarrow> 'p post_outcome) \<Rightarrow> (vk_failure + 'p option) \<times> event list" where
  "call_method c wire = call_loop c wire 0"

definition backoff_total :: "event list \<Rightarrow> real" where
  "backoff_total evs = sum_list (map (\<lambda>e. case e of Backoff d \<Rightarrow> d | _ \<Rightarrow> 0) evs)"

definition ok_response :: "'p \<Rightarrow> 'p http_response" where
  "ok_response p =
     \<lparr>content_type = ''application/json; charset=utf-8'', status = 200,
      json = \<lparr>data_error = None, data_response = Some p\<rparr>\<rparr>"

definition error_response :: "nat \<Rightarrow> int \<Rightarrow> 'p http_response" where
  "error_response st code =
     \<lparr>content_type = ''application/json; charset=utf-8'', status = st,
      json = \<lparr>data_error = Some \<lparr>error_code = Some code, error_msg = Some ''failed''\<rparr>,
              data_response = None\<rparr>\<rparr>"

definition demo_client :: client where
  "demo_client = \<lparr>max_retries = 3, base_retry_delay_s = 1, rate_limit_delay_s = 10,
                   delay_after_api_call_seconds = Some 0.37\<rparr>"

definition throttled_wire :: "nat \<Rightarrow> string post_outcome" where
  "throttled_wire k = (if k < 2 then Response (error_response 200 6) else Response (ok_response ''payload''))"

definition status_wire :: "nat \<Rightarrow> string post_outcome" where
  "status_wire k = (if k = 0 then Response (error_response 500 5) else Response (ok_response ''payload''))"

definition fatal_wire :: "nat \<Rightarrow> string post_outcome" where
  "fatal_wire k = Response (error_response 200 5)"

section \<open>The group fetcher and the coordinator (VKGroupProcessor, fetch\_vk\_data)\<close>

record post_data =
  vk_post_id :: int
  owner_id :: int
  date :: int
  post_text :: string
  comments_api_count :: int

record comment_data =
  vk_comment_id :: int
  from_id :: "int option"
  comment_date :: int
  comment_text :: string

record group_info =
  info_vk_group_id :: int
  info_screen_name :: "string option"
  info_name :: "string option"

text \<open>
  One entry of the batch: lines 293 to 297. The fields of the post are spread into the
  entry; the line written for it is its JSON text and a newline.
\<close>

record collection_record =
  vk_group_id :: int
  group_screen_name :: "string option"
  group_name :: "string option"
  post :: post_data
  comments :: "comment_data list"

text \<open>
  The output file is a sequence of bytes. \<open>open(output_file_path, 'a')\<close> gives a buffered
  text file: a \<open>write\<close> that returns has handed its line to the buffer, and the bytes reach
  the file, in order, when the buffer is flushed, at the latest by the close that ends the
  \<open>with\<close> block. A flush that fails may leave any prefix of the bytes handed over so far.
  The file is therefore a list of whole lines and of torn pieces: \<open>Torn e\<close> is a
  beginning of the line of \<open>e\<close> that stops before its newline.
\<close>

datatype item = Line collection_record | Torn collection_record

text \<open>
  One pass of the loop body, line 304: \<open>json.dumps\<close> and \<open>f_out.write\<close> return, or the
  write raises \<open>IOError\<close> when it has to flush the buffer, or another exception is raised
  (by \<open>json.dumps\<close> or by the encoder), which line 307 does not catch.
\<close>

datatype write_outcome = Written | RaisesIOError | RaisesOther

text \<open>
  What one group's task meets: the result of \<open>_fetch_group_info\<close> (\<open>None\<close> when it returns
  \<open>False\<close>), the list \<open>_parse_posts\<close> returns, the result of \<open>_parse_comments_for_post\<close> for
  a post id (\<open>None\<close> when it raises), whether \<open>open(output_file_path, 'a')\<close> succeeds, the
  outcome of each pass of the write loop, numbered from 0, and whether the close that ends
  the \<open>with\<close> block succeeds (it raises \<open>IOError\<close> otherwise). When an \<open>IOError\<close> ends the
  block, how much of what was handed over reached the file is not decided by the program:
  \<open>reached_file\<close> is the number of whole lines that did and \<open>torn_tail\<close> tells whether a
  piece of the next line followed them.
\<close>

record group_env =
  fetch_group_info :: "group_info option"
  parse_posts :: "post_data list"
  parse_comments_for_post :: "int \<Rightarrow> comment_data list option"
  open_append :: bool
  write_result :: "nat \<Rightarrow> write_outcome"
  close_ok :: bool
  reached_file :: nat
  torn_tail :: bool

datatype task_result = Saved nat | Raised

text \<open>Lines 288 to 297, for one post.\<close>

definition build_entry :: "group_env \<Rightarrow> group_info \<Rightarrow> post_data \<Rightarrow> collection_record" where
  "build_entry env info post_data =
     \<lparr>vk_group_id = info_vk_group_id info,
      group_screen_name = info_screen_name info,
      group_name = info_name info,
      post = post_data,
      comments =
        (if 0 < comments_api_count post_data then
           (case parse_comments_for_post env (vk_post_id post_data) of
              None \<Rightarrow> []
            | Some comments_for_this_post \<Rightarrow> comments_for_this_post)
         else [])\<rparr>"

text \<open>
  The loop of lines 303 to 305 over the entries still to write; \<open>k\<close> numbers the pass,
  \<open>handed\<close> collects the entries whose line was handed to the file object and
  \<open>group_posts_saved\<close> counts the writes that returned. The result tells how the loop
  ended: \<open>Written\<close> when it ran to its end. The line of a write that raises \<open>IOError\<close> may
  already be in the buffer, so its entry counts as handed over.
\<close>

fun write_entries ::
  "(nat \<Rightarrow> write_outcome) \<Rightarrow> nat \<Rightarrow> collection_record list \<Rightarrow> collection_record list \<Rightarrow> nat
     \<Rightarrow> write_outcome \<times> collection_record list \<times> nat" where
  "write_entries w k [] handed group_posts_saved = (Written, handed, group_posts_saved)"
| "write_entries w k (entry_to_write # rest) handed group_posts_saved =
     (case w k of
        Written \<Rightarrow> write_entries w (Suc k) rest (handed @ [entry_to_write]) (group_posts_saved + 1)
      | RaisesIOError \<Rightarrow> (RaisesIOError, handed @ [entry_to_write], group_posts_saved)
      | RaisesOther \<Rightarrow> (RaisesOther, handed, group_posts_saved))"

text \<open>What an \<open>IOError\<close> leaves in the file of the lines handed over.\<close>

definition reached :: "group_env \<Rightarrow> collection_record list \<Rightarrow> item list" where
  "reached env handed =
     map Line (take (reached_file env) handed)
     @ (if torn_tail env \<and> reached_file env < length handed
        then [Torn (handed ! reached_file env)] else [])"

text \<open>
  \<open>process_and_write_to_file\<close>, lines 283 to 311. The block of lines 302 to 305 runs while
  the task holds the writer lock and has no \<open>await\<close>, so it is one step. It always ends
  with the close of the file. When the loop ran to its end and the close succeeds, every
  line is in the file and the count is returned. An \<open>IOError\<close>, from a write or from the
  close (also a close that fails after another exception), is caught at line 307, which
  returns 0. Another exception followed by a close that succeeds leaves the function, with
  the lines handed over before it in the file.
\<close>

definition process_and_write_to_file ::
  "group_env \<Rightarrow> item list \<Rightarrow> task_result \<times> item list" where
  "process_and_write_to_file env store =
     (case fetch_group_info env of
        None \<Rightarrow> (Saved 0, store)
      | Some info \<Rightarrow>
          let posts_in_period = parse_posts env
          in if posts_in_period = [] then (Saved 0, store)
             else
               let all_group_data_to_write = map (build_entry env info) posts_in_period
               in if all_group_data_to_write = [] then (Saved 0, store)
                  else if \<not> open_append env then (Saved 0, store)
                  else
                    (case write_entries (write_result env) 0 (rev all_group_data_to_write) [] 0 of
                       (outcome, handed, group_posts_saved) \<Rightarrow>
                         if outcome = Written \<and> close_ok env
                         then (Saved group_posts_saved, store @ map Line handed)
                         else if outcome = RaisesOther \<and> close_ok env
                         then (Raised, store @ map Line handed)
                         else (Saved 0, store @ reached env handed)))"




text \<open>
  What a run of \<open>fetch_vk_data\<close> leaves: the value it returns or the exception it raises, the
  total it prints at line 365 (if it gets there) and the content of the output file.
\<close>

record run =
  returned :: "py_exn + string"
  printed_total :: "nat option"
  file_after :: "item list"




definition newest_first :: "post_data list \<Rightarrow> bool" where
  "newest_first ps = sorted_wrt (\<lambda>p q. date q \<le> date p) ps"

definition ascending :: "collection_record list \<Rightarrow> bool" where
  "ascending rs = sorted_wrt (\<lambda>r s. date (post r) \<le> date (post s)) rs"

definition demo_info :: group_info where
  "demo_info = \<lparr>info_vk_group_id = 7, info_screen_name = Some ''g1'', info_name = Some ''Group''\<rparr>"

definition demo_post :: "int \<Rightarrow> int \<Rightarrow> post_data" where
  "demo_post i d = \<lparr>vk_post_id = i, owner_id = - 7, date = d, post_text = ''t'', comments_api_count = 0\<rparr>"

definition demo_env :: group_env where
  "demo_env = \<lparr>fetch_group_info = Some demo_info,
                parse_posts = [demo_post 3 300, demo_post 2 200, demo_post 1 100],
                parse_comments_for_post = (\<lambda>i. Some []),
                open_append = True,
                write_result = (\<lambda>k. Written),
                close_ok = True,
                reached_file = 0,
                torn_tail = False\<rparr>"





definition demo_entry :: "int \<Rightarrow> int \<Rightarrow> collection_record" where
  "demo_entry i d = \<lparr>vk_group_id = 7, group_screen_name = Some ''g1'', group_name = Some ''Group'',
                     post = demo_post i d, comments = []\<rparr>"

section \<open>Aggregation: counts agree with the mention log\<close>

lemma bucket_sum_update:
  "bucket_sum (AList.update k v b) = bucket_sum b - get_or b k 0 + v"
  by (induction b) (auto simp: bucket_sum_def get_or_def)

lemma set_update_subset: "set (AList.update k v d) \<subseteq> insert (k, v) (set d)"
  by (induction d) auto

lemma fold_zero_values:
  "\<forall>p\<in>set d. snd p = (0::int) \<Longrightarrow>
   \<forall>p\<in>set (fold (\<lambda>l d. AList.update l 0 d) labels d). snd p = 0"
proof (induction labels arbitrary: d)
  case Nil
  then show ?case by simp
next
  case (Cons l labels)
  have "\<forall>p\<in>set (AList.update l 0 d). snd p = (0::int)"
    using Cons.prems set_update_subset [of l 0 d] by auto
  then show ?case using Cons.IH by simp
qed

lemma sum_zero_values: "\<forall>p\<in>set d. snd p = (0::int) \<Longrightarrow> bucket_sum d = 0"
  by (induction d) (auto simp: bucket_sum_def)

lemma bucket_sum_new_bucket: "bucket_sum (new_bucket labels) = 0"
proof -
  have "\<forall>p\<in>set (fold (\<lambda>l d. AList.update l 0 d) labels ([] :: counts)). snd p = 0"
    by (rule fold_zero_values) simp
  then have "\<forall>p\<in>set (new_bucket labels). snd p = 0"
    using set_update_subset [of "''UNKNOWN''" 0 "fold (\<lambda>l d. AList.update l 0 d) labels []"]
    unfolding new_bucket_def by auto
  then show ?thesis by (rule sum_zero_values)
qed

lemma bucket_total_set_bucket:
  "bucket_total (set_bucket s e d b) e' d' =
     (if e' = e \<and> d' = d then bucket_sum b else bucket_total s e' d')"
  by (auto simp: bucket_total_def set_bucket_def update_conv' get_or_def split: option.splits)

lemma bucket_total_new_entity:
  "\<not> has_key s e \<Longrightarrow> bucket_total (AList.update e [] s) e' d' = bucket_total s e' d'"
  by (auto simp: bucket_total_def has_key_def update_conv' split: option.splits)

lemma bucket_total_read:
  "bucket_sum (get_or (get_or s e []) d []) = bucket_total s e d"
  by (auto simp: bucket_total_def get_or_def bucket_sum_def split: option.splits)

lemma mention_count_snoc:
  "mention_count (ms @ [make_mention meta dk ts e eo p]) e' d' =
     mention_count ms e' d' + (if e' = e \<and> d' = dk then 1 else 0)"
  by (auto simp: mention_count_def make_mention_def)

lemma add_opinion_inv:
  assumes "add_opinion labels meta dk ts st op = Inr st'" and "agg_inv st"
  shows "agg_inv st'"
proof (cases "map_of op ''entity''")
  case None
  with assms show ?thesis by (simp add: add_opinion_def)
next
  case (Some e)
  note e = this
  show ?thesis
  proof (cases "map_of op ''polarity''")
    case None
    with e assms show ?thesis by (simp add: add_opinion_def)
  next
    case (Some p)
    note p = this
    show ?thesis
    proof (cases "e = [] \<or> p = []")
      case True
      with e p assms show ?thesis by (auto simp: add_opinion_def)
    next
      case False
      define final1 where "final1 = (if has_key (fst st) e then fst st else AList.update e [] (fst st))"
      define final2 where "final2 = (if has_key (get_or final1 e []) dk then final1
                          else set_bucket final1 e dk (new_bucket labels))"
      define bucket where "bucket = get_or (get_or final2 e []) dk []"
      define m where "m = make_mention meta dk ts e (map_of op ''entity_original'') p"
      have t1: "bucket_total final1 e' d' = bucket_total (fst st) e' d'" for e' d'
        by (simp add: final1_def bucket_total_new_entity)
      have t2: "bucket_total final2 e' d' = bucket_total (fst st) e' d'" for e' d'
      proof (cases "has_key (get_or final1 e []) dk")
        case True
        then show ?thesis by (simp add: final2_def t1)
      next
        case False
        then have "bucket_total final1 e dk = 0"
          by (auto simp: bucket_total_def has_key_def get_or_def split: option.splits)
        with False show ?thesis
          by (simp add: final2_def bucket_total_set_bucket bucket_sum_new_bucket t1)
      qed
      have bs: "bucket_sum bucket = bucket_total (fst st) e dk"
        by (simp add: bucket_def bucket_total_read t2)
      have step: "agg_inv (set_bucket final2 e dk b, snd st @ [m])"
        if "bucket_sum b = bucket_sum bucket + 1" for b
        using assms(2) that
        by (simp add: agg_inv_def bucket_total_set_bucket t2 bs m_def mention_count_snoc)
      have eq: "add_opinion labels meta dk ts st op =
          (if has_key bucket p then
             Inr (set_bucket final2 e dk (AList.update p (get_or bucket p 0 + 1) bucket), snd st @ [m])
           else (case map_of bucket ''UNKNOWN'' of
                   None \<Rightarrow> Inl KeyError
                 | Some n \<Rightarrow> Inr (set_bucket final2 e dk (AList.update ''UNKNOWN'' (n + 1) bucket),
                              snd st @ [m])))"
        unfolding add_opinion_def Let_def final1_def final2_def bucket_def m_def
        using e p False by simp
      show ?thesis
      proof (cases "has_key bucket p")
        case True
        then have st': "st' = (set_bucket final2 e dk (AList.update p (get_or bucket p 0 + 1) bucket), snd st @ [m])"
          using assms(1) eq by simp
        show ?thesis unfolding st' by (rule step) (simp add: bucket_sum_update)
      next
        case nk: False
        show ?thesis
        proof (cases "map_of bucket ''UNKNOWN''")
          case None
          with assms(1) eq nk show ?thesis by simp
        next
          case (Some n)
          have st': "st' = (set_bucket final2 e dk (AList.update ''UNKNOWN'' (n + 1) bucket), snd st @ [m])"
            using assms(1) eq nk Some by simp
          show ?thesis unfolding st'
            by (rule step) (simp add: bucket_sum_update get_or_def Some)
        qed
      qed
    qed
  qed
qed

lemma add_opinions_inv:
  "add_opinions labels meta dk ts st ops = Inr st' \<Longrightarrow> agg_inv st \<Longrightarrow> agg_inv st'"
proof (induction ops arbitrary: st)
  case Nil
  then show ?case by simp
next
  case (Cons op ops)
  then show ?case
    by (auto split: sum.splits dest: add_opinion_inv)
qed

lemma aggregate_texts_inv:
  "aggregate_texts labels strftime js ms st = Inr st' \<Longrightarrow> agg_inv st \<Longrightarrow> agg_inv st'"
proof (induction labels strftime js ms st rule: aggregate_texts.induct)
  case (1 labels strftime metas st)
  then show ?case by simp
next
  case (2 labels strftime text_opinions rest st)
  then show ?case by simp
next
  case (3 labels strftime text_opinions rest meta metas st)
  define date_ts where "date_ts = meta_get meta ''date_timestamp''"
  show ?case
  proof (cases "date_ts = PyNone")
    case True
    with 3 show ?thesis by (simp add: date_ts_def)
  next
    case nn: False
    show ?thesis
    proof (cases "strftime date_ts")
      case (Inl exn)
      with 3 nn show ?thesis by (simp add: date_ts_def split: if_splits)
    next
      case (Inr date_key)
      note dk = this
      show ?thesis
      proof (cases "add_opinions labels meta date_key date_ts st text_opinions")
        case (Inl x)
        with "3.prems" nn dk show ?thesis by (simp add: date_ts_def)
      next
        case (Inr st1)
        then have "agg_inv st1" using "3.prems"(2) by (rule add_opinions_inv)
        moreover have "aggregate_texts labels strftime rest metas st1 = Inr st'"
          using "3.prems"(1) nn dk Inr by (simp add: date_ts_def)
        ultimately show ?thesis
          using "3.IH"(3) [OF date_ts_def nn dk] Inr by (simp add: date_ts_def)
      qed
    qed
  qed
qed

text \<open>
  Claim C4. For every judgment list and metadata list, when \<open>_aggregate_nlp_results\<close>
  returns a summary and a mention list, every bucket \<open>summary[E][D]\<close> present in the summary
  has counts that sum to the number of mention records whose \<open>entity_normalized\<close> is \<open>E\<close> and
  whose \<open>date\<close> is \<open>D\<close>.
\<close>

theorem aggregate_counts_match_mentions:
  assumes "aggregate_nlp_results labels strftime nlp_results_per_text metadata_for_nlp
             = Inr (summary, mentions)"
    and "map_of summary E = Some by_date" and "map_of by_date D = Some bucket"
  shows "bucket_sum bucket = int (mention_count mentions E D)"
proof -
  have "agg_inv ([], [])"
    by (simp add: agg_inv_def bucket_total_def mention_count_def)
  with assms(1) have "agg_inv (summary, mentions)"
    unfolding aggregate_nlp_results_def by (rule aggregate_texts_inv)
  then have "bucket_total summary E D = int (mention_count mentions E D)"
    by (simp add: agg_inv_def)
  with assms(2,3) show ?thesis by (simp add: bucket_total_def)
qed

lemma demo_aggregate:
  "aggregate_nlp_results demo_labels demo_strftime demo_judgments demo_metadata
     = Inr (demo_summary, demo_mentions)"
  by (simp add: aggregate_nlp_results_def demo_labels_def demo_strftime_def demo_judgments_def
      demo_metadata_def demo_mentions_def demo_summary_def add_opinion_def has_key_def get_or_def
      meta_get_def new_bucket_def set_bucket_def Let_def)

theorem aggregate_counts_match_mentions_witness:
  "aggregate_nlp_results demo_labels demo_strftime demo_judgments demo_metadata
     = Inr (demo_summary, demo_mentions)
   \<and> bucket_sum [(''POS'', 0), (''NEG'', 0), (''NEU'', 0), (''UNKNOWN'', 1)]
       = int (mention_count demo_mentions ''ivanov'' ''2023-11-14'')"
proof -
  have h2: "map_of demo_summary ''ivanov''
      = Some [(''2023-11-14'', [(''POS'', 0), (''NEG'', 0), (''NEU'', 0), (''UNKNOWN'', 1)])]"
    by (simp add: demo_summary_def)
  have h3: "map_of [(''2023-11-14'', [(''POS'', 0), (''NEG'', 0), (''NEU'', 0), (''UNKNOWN'', 1::int)])]
        ''2023-11-14''
      = Some [(''POS'', 0), (''NEG'', 0), (''NEU'', 0), (''UNKNOWN'', 1)]"
    by simp
  show ?thesis
    using demo_aggregate aggregate_counts_match_mentions [OF demo_aggregate h2 h3] by simp
qed

subsection \<open>What aggregation can raise\<close>

text \<open>
  Every bucket is seeded with \<open>UNKNOWN\<close>, so the read of line 112 never raises: an exception
  that leaves \<open>_aggregate_nlp_results\<close> was raised by the date conversion and is neither
  \<open>TypeError\<close> nor \<open>ValueError\<close>.
\<close>

lemma has_key_update: "has_key (AList.update k v d) k' \<longleftrightarrow> k' = k \<or> has_key d k'"
  by (simp add: has_key_def update_conv')

lemma new_bucket_unknown: "has_key (new_bucket labels) ''UNKNOWN''"
  by (simp add: new_bucket_def has_key_update)

lemma unknown_inv_new_entity: "unknown_inv s \<Longrightarrow> unknown_inv (AList.update e [] s)"
  by (auto simp: unknown_inv_def update_conv' split: if_splits)

lemma unknown_inv_set_bucket:
  "unknown_inv s \<Longrightarrow> has_key b ''UNKNOWN'' \<Longrightarrow> unknown_inv (set_bucket s e d b)"
  by (auto simp: unknown_inv_def set_bucket_def update_conv' get_or_def
      split: if_splits option.splits)

lemma unknown_inv_read:
  "unknown_inv s \<Longrightarrow> has_key (get_or s e []) d \<Longrightarrow>
   has_key (get_or (get_or s e []) d []) ''UNKNOWN''"
  by (auto simp: unknown_inv_def has_key_def get_or_def split: option.splits)

lemma add_opinion_unknown:
  assumes "unknown_inv (fst st)"
  shows "\<exists>st'. add_opinion labels meta dk ts st op = Inr st' \<and> unknown_inv (fst st')"
proof (cases "map_of op ''entity''")
  case None
  with assms show ?thesis by (simp add: add_opinion_def)
next
  case (Some e)
  note e = this
  show ?thesis
  proof (cases "map_of op ''polarity''")
    case None
    with e assms show ?thesis by (simp add: add_opinion_def)
  next
    case (Some p)
    note p = this
    show ?thesis
    proof (cases "e = [] \<or> p = []")
      case True
      with e p assms show ?thesis by (auto simp: add_opinion_def)
    next
      case False
      define final1 where "final1 = (if has_key (fst st) e then fst st else AList.update e [] (fst st))"
      define final2 where "final2 = (if has_key (get_or final1 e []) dk then final1
                          else set_bucket final1 e dk (new_bucket labels))"
      define bucket where "bucket = get_or (get_or final2 e []) dk []"
      define m where "m = make_mention meta dk ts e (map_of op ''entity_original'') p"
      have i1: "unknown_inv final1"
        using assms by (simp add: final1_def unknown_inv_new_entity)
      have i2: "unknown_inv final2"
        using i1 by (simp add: final2_def unknown_inv_set_bucket new_bucket_unknown)
      have k2: "has_key (get_or final2 e []) dk"
        by (auto simp: final2_def set_bucket_def get_or_def has_key_def update_conv')
      have u: "has_key bucket ''UNKNOWN''"
        unfolding bucket_def using i2 k2 by (rule unknown_inv_read)
      have eq: "add_opinion labels meta dk ts st op =
          (if has_key bucket p then
             Inr (set_bucket final2 e dk (AList.update p (get_or bucket p 0 + 1) bucket), snd st @ [m])
           else (case map_of bucket ''UNKNOWN'' of
                   None \<Rightarrow> Inl KeyError
                 | Some n \<Rightarrow> Inr (set_bucket final2 e dk (AList.update ''UNKNOWN'' (n + 1) bucket),
                              snd st @ [m])))"
        unfolding add_opinion_def Let_def final1_def final2_def bucket_def m_def
        using e p False by simp
      from u obtain n where n: "map_of bucket ''UNKNOWN'' = Some n"
        by (auto simp: has_key_def)
      show ?thesis
        using i2 u by (simp add: eq n unknown_inv_set_bucket has_key_update)
    qed
  qed
qed

lemma add_opinions_unknown:
  "unknown_inv (fst st) \<Longrightarrow>
   \<exists>st'. add_opinions labels meta dk ts st ops = Inr st' \<and> unknown_inv (fst st')"
proof (induction ops arbitrary: st)
  case Nil
  then show ?case by simp
next
  case (Cons op ops)
  from add_opinion_unknown [OF Cons.prems, of labels meta dk ts op] obtain st1 where
    "add_opinion labels meta dk ts st op = Inr st1" "unknown_inv (fst st1)" by blast
  with Cons.IH [of st1] show ?case by simp
qed

lemma aggregate_texts_raises:
  "unknown_inv (fst st) \<Longrightarrow> aggregate_texts labels strftime js ms st = Inl x \<Longrightarrow>
   x \<noteq> TypeError \<and> x \<noteq> ValueError \<and> (\<exists>v. strftime v = Inl x)"
proof (induction labels strftime js ms st rule: aggregate_texts.induct)
  case (1 labels strftime metas st)
  then show ?case by simp
next
  case (2 labels strftime text_opinions rest st)
  then show ?case by simp
next
  case (3 labels strftime text_opinions rest meta metas st)
  define date_ts where "date_ts = meta_get meta ''date_timestamp''"
  show ?case
  proof (cases "date_ts = PyNone")
    case True
    with 3 show ?thesis by (simp add: date_ts_def)
  next
    case nn: False
    show ?thesis
    proof (cases "strftime date_ts")
      case (Inl exn)
      show ?thesis
      proof (cases "exn = TypeError \<or> exn = ValueError")
        case True
        with 3 nn Inl show ?thesis by (simp add: date_ts_def)
      next
        case False
        with "3.prems" nn Inl have "x = exn" by (simp add: date_ts_def)
        with False Inl show ?thesis by auto
      qed
    next
      case (Inr date_key)
      note dk = this
      from add_opinions_unknown [OF "3.prems"(1), of labels meta date_key date_ts text_opinions]
      obtain st1 where st1: "add_opinions labels meta date_key date_ts st text_opinions = Inr st1"
        "unknown_inv (fst st1)" by blast
      have "aggregate_texts labels strftime rest metas st1 = Inl x"
        using "3.prems"(2) nn dk st1(1) by (simp add: date_ts_def)
      with "3.IH"(3) [OF date_ts_def nn dk st1(1) st1(2)] show ?thesis by simp
    qed
  qed
qed

lemma aggregate_raises_only_date_errors:
  assumes "aggregate_nlp_results labels strftime js ms = Inl x"
  shows "x \<noteq> TypeError \<and> x \<noteq> ValueError \<and> (\<exists>v. strftime v = Inl x)"
proof -
  have "unknown_inv (fst (([], []) :: summary \<times> mention list))"
    by (simp add: unknown_inv_def)
  then show ?thesis
    using assms unfolding aggregate_nlp_results_def by (rule aggregate_texts_raises)
qed

section \<open>Alias merge: conservation of counts\<close>

lemma dates_total_update:
  "dates_total (AList.update d b by_date) =
     dates_total by_date - bucket_sum (get_or by_date d []) + bucket_sum b"
  by (induction by_date) (auto simp: dates_total_def get_or_def bucket_sum_def)

lemma bucket_sum_add_counts:
  "bucket_sum (fold (\<lambda>sc b. add_count b sc) scs b) = bucket_sum b + bucket_sum scs"
proof (induction scs arbitrary: b)
  case Nil
  then show ?case by (simp add: bucket_sum_def)
next
  case (Cons sc scs)
  have "bucket_sum (add_count b sc) = bucket_sum b + snd sc"
    by (simp add: add_count_def bucket_sum_update)
  with Cons.IH [of "add_count b sc"] show ?case by (simp add: bucket_sum_def)
qed

lemma bucket_sum_Nil: "bucket_sum [] = 0"
  by (simp add: bucket_sum_def)

lemma dates_total_Cons:
  "dates_total (item # by_date) = bucket_sum (snd item) + dates_total by_date"
  by (simp add: dates_total_def)

lemma dates_total_merge_date:
  "dates_total (merge_date labels canon item) = dates_total canon + bucket_sum (snd item)"
proof (cases "has_key canon (fst item)")
  case True
  then show ?thesis
    by (simp add: merge_date_def Let_def dates_total_update bucket_sum_add_counts)
next
  case False
  define canon1 where "canon1 = AList.update (fst item) (new_bucket labels) canon"
  have g0: "get_or canon (fst item) [] = []"
    using False by (simp add: has_key_def get_or_def)
  have g1: "get_or canon1 (fst item) [] = new_bucket labels"
    by (simp add: canon1_def get_or_def update_conv')
  have t1: "dates_total canon1 = dates_total canon"
    by (simp add: canon1_def dates_total_update g0 bucket_sum_Nil bucket_sum_new_bucket)
  have "merge_date labels canon item =
      AList.update (fst item)
        (fold (\<lambda>sc b. add_count b sc) (snd item) (get_or canon1 (fst item) [])) canon1"
    using False by (simp add: merge_date_def Let_def canon1_def)
  then show ?thesis
    by (simp add: dates_total_update bucket_sum_add_counts g1 t1 bucket_sum_new_bucket)
qed

lemma dates_total_merge_dates:
  "dates_total (fold (\<lambda>item canon. merge_date labels canon item) by_date canon)
     = dates_total canon + dates_total by_date"
proof (induction by_date arbitrary: canon)
  case Nil
  then show ?case by (simp add: dates_total_def)
next
  case (Cons x by_date)
  show ?case
    using Cons.IH [of "merge_date labels canon x"]
    by (simp add: dates_total_merge_date dates_total_Cons)
qed

lemma entity_total_merge_alias:
  assumes "alias \<noteq> c"
  shows "entity_total (merge_alias labels c s alias) x =
     (if x = alias then 0
      else if x = c \<and> has_key s alias then entity_total s c + entity_total s alias
      else entity_total s x)"
proof (cases "map_of s alias")
  case None
  with assms show ?thesis
    by (simp add: merge_alias_def entity_total_def has_key_def)
next
  case (Some by_date)
  have c0: "dates_total (get_or s c []) = entity_total s c"
    by (simp add: get_or_def entity_total_def dates_total_def split: option.splits)
  from Some assms show ?thesis
    by (simp add: merge_alias_def entity_total_def has_key_def delete_conv' update_conv'
        dates_total_merge_dates c0)
qed

lemma entity_total_no_key: "\<not> has_key s a \<Longrightarrow> entity_total s a = 0"
  by (simp add: has_key_def entity_total_def)

lemma has_key_merge_alias:
  "has_key (merge_alias labels c s alias) x \<longleftrightarrow>
     (if alias = c then has_key s x
      else if x = alias then False
      else if x = c then has_key s c \<or> has_key s alias
      else has_key s x)"
  by (auto simp: merge_alias_def has_key_def delete_conv' update_conv' split: option.splits)

lemma merge_fold_total:
  "has_key s c \<Longrightarrow>
   entity_total (fold (\<lambda>alias ns. merge_alias labels c ns alias) aliases s) c
     = entity_total s c + sum (entity_total s) (set aliases - {c})"
proof (induction aliases arbitrary: s)
  case Nil
  then show ?case by simp
next
  case (Cons a aliases)
  show ?case
  proof (cases "a = c")
    case True
    then have "merge_alias labels c s a = s" by (simp add: merge_alias_def)
    moreover have "set (a # aliases) - {c} = set aliases - {c}" using True by auto
    ultimately show ?thesis using Cons.IH [OF Cons.prems] by simp
  next
    case False
    define s' where "s' = merge_alias labels c s a"
    have k: "has_key s' c" using Cons.prems False by (simp add: s'_def has_key_merge_alias)
    have tc: "entity_total s' c = entity_total s c + entity_total s a"
      using False by (cases "has_key s a") (simp_all add: s'_def entity_total_merge_alias entity_total_no_key)
    have ta: "entity_total s' a = 0"
      using False by (simp add: s'_def entity_total_merge_alias)
    have tx: "entity_total s' x = entity_total s x" if "x \<noteq> a" "x \<noteq> c" for x
      using False that by (simp add: s'_def entity_total_merge_alias)
    have "sum (entity_total s') (set aliases - {c}) = sum (entity_total s') (set aliases - {c} - {a})"
      using ta by (cases "a \<in> set aliases - {c}") (simp_all add: sum.remove [of _ a])
    also have "\<dots> = sum (entity_total s) (set aliases - {c} - {a})"
      by (rule sum.cong) (auto simp: tx)
    finally have rest: "sum (entity_total s') (set aliases - {c}) = sum (entity_total s) (set aliases - {c} - {a})" .
    have "set (a # aliases) - {c} = insert a (set aliases - {c} - {a})" using False by auto
    moreover have "sum (entity_total s) (insert a (set aliases - {c} - {a}))
        = entity_total s a + sum (entity_total s) (set aliases - {c} - {a})"
      by (rule sum.insert) auto
    ultimately have "sum (entity_total s) (set (a # aliases) - {c})
        = entity_total s a + sum (entity_total s) (set aliases - {c} - {a})"
      by (simp only:)
    with Cons.IH [OF k] tc rest show ?thesis by (simp add: s'_def)
  qed
qed

lemma merge_fold_keys:
  "has_key (fold (\<lambda>alias ns. merge_alias labels c ns alias) aliases s) x \<Longrightarrow> x \<noteq> c \<Longrightarrow>
   has_key s x \<and> x \<notin> set aliases"
proof (induction aliases arbitrary: s)
  case Nil
  then show ?case by simp
next
  case (Cons a aliases)
  from Cons.IH [of "merge_alias labels c s a"] Cons.prems
  have "has_key (merge_alias labels c s a) x" and "x \<notin> set aliases" by simp_all
  then show ?case using Cons.prems(2)
    by (auto simp: has_key_merge_alias split: if_splits)
qed

lemma merge_summary_total:
  "entity_total (merge_summary labels aliases c s) c
     = entity_total s c + sum (entity_total s) (set aliases - {c})"
proof (cases "has_key s c")
  case True
  then show ?thesis by (simp add: merge_summary_def merge_fold_total)
next
  case False
  define s0 where "s0 = AList.update c [] s"
  have k: "has_key s0 c" by (simp add: s0_def has_key_def update_conv')
  have t: "entity_total s0 x = entity_total s x" for x
    using False by (simp add: s0_def entity_total_def has_key_def update_conv' dates_total_def)
  have "sum (entity_total s0) (set aliases - {c}) = sum (entity_total s) (set aliases - {c})"
    by (rule sum.cong) (simp_all add: t)
  with False merge_fold_total [OF k, of labels aliases] show ?thesis
    by (simp add: merge_summary_def s0_def [symmetric] t)
qed

lemma merge_summary_keys:
  "x \<in> set aliases \<Longrightarrow> x \<noteq> c \<Longrightarrow> \<not> has_key (merge_summary labels aliases c s) x"
  unfolding merge_summary_def using merge_fold_keys by blast

lemma strip_demo: "strip ''ivanov'' \<noteq> []"
  by (simp add: strip_def is_space_def)

lemma strip_blank: "strip '' '' = []"
  by (simp add: strip_def is_space_def)

lemma demo_merge:
  "reaggregate_with_aliases demo_labels demo_summary demo_mentions [''ivanov i'', ''petrov''] ''ivanov''
    = ([(''ivanov'', [(''2023-11-14'', [(''POS'', 1), (''NEG'', 0), (''NEU'', 0), (''UNKNOWN'', 1)])])],
       demo_mentions)"
  by (simp add: reaggregate_with_aliases_def strip_def is_space_def merge_summary_def
      merge_alias_def merge_date_def add_count_def has_key_def get_or_def demo_summary_def
      demo_mentions_def demo_labels_def rewrite_mentions_def rewrite_mention_def make_mention_def
      Let_def)

text \<open>
  Claim C1, as amended. For every summary \<open>S\<close>, mention list, alias list \<open>[A1, A2]\<close> and
  canonical name \<open>C\<close> that is neither empty nor made of whitespace only, the sum of all
  counts under \<open>C\<close> in the new summary is the sum, over the distinct names among \<open>A1\<close>,
  \<open>A2\<close> and \<open>C\<close>, of all counts under that name in \<open>S\<close>; and \<open>A1\<close> and \<open>A2\<close>, when
  distinct from \<open>C\<close>, are no keys of the new summary.
\<close>

theorem merge_conserves_totals:
  assumes "strip C \<noteq> []"
    and "reaggregate_with_aliases labels S M [A1, A2] C = (S', M')"
  shows "entity_total S' C = (\<Sum>e\<in>{A1, A2, C}. entity_total S e)
       \<and> (A1 \<noteq> C \<longrightarrow> \<not> has_key S' A1) \<and> (A2 \<noteq> C \<longrightarrow> \<not> has_key S' A2)"
proof -
  have S': "S' = merge_summary labels [A1, A2] C S"
    using assms by (simp add: reaggregate_with_aliases_def)
  have "{A1, A2, C} = insert C (set [A1, A2] - {C})" by auto
  then have "(\<Sum>e\<in>{A1, A2, C}. entity_total S e)
      = entity_total S C + sum (entity_total S) (set [A1, A2] - {C})"
    by (simp only: sum.insert [of "set [A1, A2] - {C}" C] finite_Diff finite_set Diff_iff
        singletonI not_True_eq_False simp_thms if_False)
  then show ?thesis
    unfolding S' by (simp add: merge_summary_total merge_summary_keys)
qed

theorem merge_conserves_totals_witness:
  "strip ''ivanov'' \<noteq> []
   \<and> entity_total [(''ivanov'', [(''2023-11-14'', [(''POS'', 1), (''NEG'', 0), (''NEU'', 0), (''UNKNOWN'', 1)])])] ''ivanov'' = 2
   \<and> (\<Sum>e\<in>{''ivanov i'', ''petrov'', ''ivanov''}. entity_total demo_summary e) = 2
   \<and> \<not> has_key [(''ivanov'', [(''2023-11-14'', [(''POS'', 1), (''NEG'', 0), (''NEU'', 0), (''UNKNOWN'', 1)])])] ''ivanov i''"
  using strip_demo merge_conserves_totals [OF strip_demo demo_merge]
  by (simp add: entity_total_def dates_total_def bucket_sum_def has_key_def demo_summary_def)

text \<open>
  The claim as stated asks only for a non-empty canonical name. A name of one space is not
  empty, yet line 153 returns the inputs: the alias is still a key and nothing was added
  under the canonical name.
\<close>

theorem merge_conserves_totals_counterexample:
  "'' '' \<noteq> []
   \<and> \<not> (entity_total (fst (reaggregate_with_aliases demo_labels demo_summary demo_mentions
                [''ivanov i'', ''petrov''] '' '')) '' ''
          = (\<Sum>e\<in>{''ivanov i'', ''petrov'', '' ''}. entity_total demo_summary e)
        \<and> \<not> has_key (fst (reaggregate_with_aliases demo_labels demo_summary demo_mentions
                [''ivanov i'', ''petrov''] '' '')) ''ivanov i''
        \<and> \<not> has_key (fst (reaggregate_with_aliases demo_labels demo_summary demo_mentions
                [''ivanov i'', ''petrov''] '' '')) ''petrov'')"
  by (simp add: reaggregate_with_aliases_def strip_def is_space_def has_key_def demo_summary_def)

section \<open>Alias merge: the blank canonical name\<close>

lemma strip_empty_iff: "strip s = [] \<longleftrightarrow> (\<forall>c\<in>set s. is_space c)"
proof
  assume "strip s = []"
  then have a: "\<forall>c\<in>set (dropWhile is_space s). is_space c"
    by (simp add: strip_def dropWhile_eq_Nil_conv)
  show "\<forall>c\<in>set s. is_space c"
  proof (cases "dropWhile is_space s")
    case Nil
    then show ?thesis by (simp add: dropWhile_eq_Nil_conv)
  next
    case (Cons x xs)
    then have "\<not> is_space x" using hd_dropWhile [of is_space s] by simp
    moreover have "x \<in> set (dropWhile is_space s)" using Cons by simp
    ultimately show ?thesis using a by blast
  qed
next
  assume "\<forall>c\<in>set s. is_space c"
  then have d: "dropWhile is_space s = []" by (simp add: dropWhile_eq_Nil_conv)
  show "strip s = []" unfolding strip_def d by simp
qed

text \<open>
  Claim C5. For every summary \<open>S\<close>, mention list \<open>M\<close> and alias list, a canonical name that is
  empty or made of whitespace only makes \<open>reaggregate_with_aliases\<close> return \<open>(S, M)\<close>, equal
  to the inputs.
\<close>

theorem blank_canonical_is_identity:
  "\<forall>c\<in>set C. is_space c \<Longrightarrow> reaggregate_with_aliases labels S M aliases C = (S, M)"
  by (simp add: reaggregate_with_aliases_def strip_empty_iff)

theorem blank_canonical_is_identity_witness:
  "is_space CHR '' ''
   \<and> reaggregate_with_aliases demo_labels demo_summary demo_mentions [''ivanov i'', ''ivanov''] '' ''
       = (demo_summary, demo_mentions)"
proof -
  have h: "\<forall>c\<in>set '' ''. is_space c" by (simp add: is_space_def)
  show ?thesis using h blank_canonical_is_identity [OF h] by simp
qed

section \<open>Alias merge: the mention records\<close>

text \<open>
  The records built by \<open>_aggregate_nlp_results\<close> keep the entity under the key
  \<open>entity_normalized\<close> and have no key \<open>entity\<close>; lines 176 and 177 read and write the key
  \<open>entity\<close>. No record that aggregation built is rewritten by a merge.
\<close>

text \<open>What the loop of lines 175 to 177 does change: the key \<open>entity\<close>, and no other key.\<close>

lemma rewrite_mention_other_keys:
  "k \<noteq> ''entity'' \<Longrightarrow> map_of (rewrite_mention aliases C m) k = map_of m k"
  by (simp add: rewrite_mention_def update_conv' split: option.splits pyval.splits)

lemma rewrite_mention_entity_key:
  "map_of m ''entity'' = Some (PyStr e) \<Longrightarrow> e \<in> set aliases \<Longrightarrow>
   map_of (rewrite_mention aliases C m) ''entity'' = Some (PyStr C)"
  by (simp add: rewrite_mention_def update_conv')


lemma add_opinion_no_entity_key:
  "add_opinion labels meta dk ts st op = Inr st' \<Longrightarrow>
   \<forall>m\<in>set (snd st). map_of m ''entity'' = None \<Longrightarrow>
   \<forall>m\<in>set (snd st'). map_of m ''entity'' = None"
  by (auto simp: add_opinion_def Let_def make_mention_def split: option.splits if_splits)

lemma add_opinions_no_entity_key:
  "add_opinions labels meta dk ts st ops = Inr st' \<Longrightarrow>
   \<forall>m\<in>set (snd st). map_of m ''entity'' = None \<Longrightarrow>
   \<forall>m\<in>set (snd st'). map_of m ''entity'' = None"
proof (induction ops arbitrary: st)
  case Nil
  then show ?case by simp
next
  case (Cons op ops)
  show ?case
  proof (cases "add_opinion labels meta dk ts st op")
    case (Inl x)
    with Cons.prems show ?thesis by simp
  next
    case (Inr st1)
    then have "\<forall>m\<in>set (snd st1). map_of m ''entity'' = None"
      using Cons.prems(2) by (rule add_opinion_no_entity_key)
    moreover have "add_opinions labels meta dk ts st1 ops = Inr st'"
      using Cons.prems(1) Inr by simp
    ultimately show ?thesis by (rule Cons.IH [rotated])
  qed
qed

lemma aggregate_texts_no_entity_key:
  "aggregate_texts labels strftime js ms st = Inr st' \<Longrightarrow>
   \<forall>m\<in>set (snd st). map_of m ''entity'' = None \<Longrightarrow>
   \<forall>m\<in>set (snd st'). map_of m ''entity'' = None"
proof (induction labels strftime js ms st rule: aggregate_texts.induct)
  case (1 labels strftime metas st)
  then show ?case by simp
next
  case (2 labels strftime text_opinions rest st)
  then show ?case by simp
next
  case (3 labels strftime text_opinions rest meta metas st)
  define date_ts where "date_ts = meta_get meta ''date_timestamp''"
  show ?case
  proof (cases "date_ts = PyNone")
    case True
    with 3 show ?thesis by (simp add: date_ts_def)
  next
    case nn: False
    show ?thesis
    proof (cases "strftime date_ts")
      case (Inl exn)
      with 3 nn show ?thesis by (simp add: date_ts_def split: if_splits)
    next
      case (Inr date_key)
      note dk = this
      show ?thesis
      proof (cases "add_opinions labels meta date_key date_ts st text_opinions")
        case (Inl x)
        with "3.prems" nn dk show ?thesis by (simp add: date_ts_def)
      next
        case (Inr st1)
        then have "\<forall>m\<in>set (snd st1). map_of m ''entity'' = None"
          using "3.prems"(2) by (rule add_opinions_no_entity_key)
        moreover have "aggregate_texts labels strftime rest metas st1 = Inr st'"
          using "3.prems"(1) nn dk Inr by (simp add: date_ts_def)
        ultimately show ?thesis
          using "3.IH"(3) [OF date_ts_def nn dk] Inr by (simp add: date_ts_def)
      qed
    qed
  qed
qed

lemma aggregated_mentions_never_rewritten:
  assumes "aggregate_nlp_results labels strftime js ms = Inr (S, M)"
  shows "snd (reaggregate_with_aliases labels' S' M aliases C) = M"
proof -
  have "\<forall>m\<in>set (snd (S, M)). map_of m ''entity'' = None"
    using assms unfolding aggregate_nlp_results_def
    by (rule aggregate_texts_no_entity_key) simp
  then have "map (rewrite_mention aliases C) M = M"
    by (simp add: rewrite_mention_def map_idI)
  then show ?thesis
    by (simp add: reaggregate_with_aliases_def rewrite_mentions_def)
qed

text \<open>
  Claim C2, evaluated on the code. The mention log of the example holds a record whose
  \<open>entity_normalized\<close> is the alias \<open>ivanov i\<close>. Merging that alias into \<open>ivanov\<close> returns the
  log unchanged: the record still names the alias.
\<close>

theorem merge_does_not_rewrite_entity_normalized:
  "aggregate_nlp_results demo_labels demo_strftime demo_judgments demo_metadata
     = Inr (demo_summary, demo_mentions)
   \<and> map_of (hd demo_mentions) ''entity_normalized'' = Some (PyStr ''ivanov i'')
   \<and> ''ivanov i'' \<in> set [''ivanov i'', ''petrov'']
   \<and> map_of (hd (snd (reaggregate_with_aliases demo_labels demo_summary demo_mentions
                        [''ivanov i'', ''petrov''] ''ivanov''))) ''entity_normalized''
       = Some (PyStr ''ivanov i'')
   \<and> snd (reaggregate_with_aliases demo_labels demo_summary demo_mentions
            [''ivanov i'', ''petrov''] ''ivanov'') = demo_mentions"
  by (simp add: demo_aggregate demo_merge) (simp add: demo_mentions_def make_mention_def)

section \<open>Alias merge: the caller's objects\<close>

lemma reaggregate_heap_unfold:
  "strip C \<noteq> [] \<Longrightarrow> cm < length h \<Longrightarrow>
   reaggregate_with_aliases_heap labels h cs cm aliases C =
     ((h @ [h ! cs, h ! cm])
        [length h := SummaryObj (merge_summary labels aliases C (summary_of (h ! cs))),
         Suc (length h) := MentionsObj (rewrite_mentions aliases C (mentions_of (h ! cm)))],
      length h, Suc (length h))"
  by (simp add: reaggregate_with_aliases_heap_def deepcopy_def Let_def nth_append)

text \<open>
  Claim C3, as amended. For every store, pair of input objects, alias list and canonical
  name, no object that existed before the call is changed by it, so the inputs are equal to
  their values before the call. When the canonical name is not blank the two returned
  collections are objects created by the call; when it is blank they are the caller's two
  objects themselves and the store is unchanged.
\<close>

theorem reaggregate_heap_frame:
  assumes "reaggregate_with_aliases_heap labels h cs cm aliases C = (h', ns, nm)"
  shows "(\<forall>a<length h. h' ! a = h ! a)
       \<and> (strip C \<noteq> [] \<longrightarrow> independent_copies h (h', ns, nm))
       \<and> (strip C = [] \<longrightarrow> h' = h \<and> ns = cs \<and> nm = cm)"
proof (cases "strip C = []")
  case True
  with assms show ?thesis by (simp add: reaggregate_with_aliases_heap_def)
next
  case False
  define x where "x = h ! cs"
  define y where "y = (h @ [x]) ! cm"
  from assms False
  have h': "h' = (h @ [x, y])
        [length h := SummaryObj (merge_summary labels aliases C (summary_of x)),
         Suc (length h) := MentionsObj (rewrite_mentions aliases C (mentions_of y))]"
    and r: "ns = length h" "nm = Suc (length h)"
    by (auto simp: reaggregate_with_aliases_heap_def deepcopy_def Let_def nth_append x_def y_def)
  have "\<forall>a<length h. h' ! a = h ! a"
    by (simp add: h' nth_append)
  moreover have "independent_copies h (h', ns, nm)"
    by (simp add: independent_copies_def h' r)
  ultimately show ?thesis using False by simp
qed

theorem reaggregate_heap_frame_witness:
  "reaggregate_with_aliases_heap demo_labels demo_heap 0 1 [''ivanov i'', ''petrov''] ''ivanov''
     = (demo_heap @
          [SummaryObj [(''ivanov'', [(''2023-11-14'', [(''POS'', 1), (''NEG'', 0), (''NEU'', 0), (''UNKNOWN'', 1)])])],
           MentionsObj demo_mentions], 2, 3)
   \<and> strip ''ivanov'' \<noteq> []
   \<and> independent_copies demo_heap
       (demo_heap @
          [SummaryObj [(''ivanov'', [(''2023-11-14'', [(''POS'', 1), (''NEG'', 0), (''NEU'', 0), (''UNKNOWN'', 1)])])],
           MentionsObj demo_mentions], 2, 3)"
proof -
  have run: "reaggregate_with_aliases_heap demo_labels demo_heap 0 1 [''ivanov i'', ''petrov''] ''ivanov''
     = (demo_heap @
          [SummaryObj [(''ivanov'', [(''2023-11-14'', [(''POS'', 1), (''NEG'', 0), (''NEU'', 0), (''UNKNOWN'', 1)])])],
           MentionsObj demo_mentions], 2, 3)"
    using demo_merge
    by (simp add: reaggregate_heap_unfold [OF strip_demo] reaggregate_with_aliases_def strip_demo
        demo_heap_def summary_of_def mentions_of_def)
  show ?thesis
    using run strip_demo reaggregate_heap_frame [OF run] by simp
qed

text \<open>
  The claim as stated also promises independent copies for every canonical name. For the
  empty name the call returns the two addresses it was given.
\<close>

theorem reaggregate_heap_frame_counterexample:
  "reaggregate_with_aliases_heap demo_labels demo_heap 0 1 [''ivanov i'', ''petrov''] ''''
     = (demo_heap, 0, 1)
   \<and> \<not> independent_copies demo_heap
        (reaggregate_with_aliases_heap demo_labels demo_heap 0 1 [''ivanov i'', ''petrov''] '''')"
  by (simp add: reaggregate_with_aliases_heap_def strip_def independent_copies_def demo_heap_def)

text \<open>The store version computes the values of the function on values.\<close>

lemma reaggregate_heap_values:
  assumes "cs < length h" "cm < length h"
    and "reaggregate_with_aliases_heap labels h cs cm aliases C = (h', ns, nm)"
  shows "(summary_of (h' ! ns), mentions_of (h' ! nm))
     = reaggregate_with_aliases labels (summary_of (h ! cs)) (mentions_of (h ! cm)) aliases C"
proof (cases "strip C = []")
  case True
  with assms show ?thesis
    by (simp add: reaggregate_with_aliases_heap_def reaggregate_with_aliases_def)
next
  case False
  from assms(3) reaggregate_heap_unfold [OF False assms(2), of labels cs aliases]
  show ?thesis using False
    by (auto simp: reaggregate_with_aliases_def summary_of_def mentions_of_def nth_append)
qed

section \<open>The wire client: retries\<close>

lemma attempt_body_no_post:
  "attempt_body c outcome attempt = Done res evs \<Longrightarrow> Post k \<notin> set evs"
  "attempt_body c outcome attempt = Retry evs \<Longrightarrow> Post k \<notin> set evs"
  by (auto simp: attempt_body_def on_client_error_def on_api_error_def Let_def
      split: post_outcome.splits if_splits option.splits)

lemma call_loop_reaches:
  "Post k \<in> set (snd (call_loop c wire j)) \<Longrightarrow>
   k < max_retries c \<and>
   (\<exists>pre. call_loop c wire j = then_events pre (call_loop c wire k) \<and> Post k \<notin> set pre)"
proof (induction c wire j rule: call_loop.induct)
  case (1 c wire attempt)
  show ?case
  proof (cases "max_retries c \<le> attempt")
    case True
    with "1.prems" show ?thesis by (simp add: call_loop.simps [of c wire attempt])
  next
    case False
    have triv: "call_loop c wire attempt = then_events [] (call_loop c wire attempt)"
      by (simp add: then_events_def)
    show ?thesis
    proof (cases "attempt_body c (wire attempt) attempt")
      case (Done res evs)
      with False have "call_loop c wire attempt = (res, Post attempt # evs)"
        by (simp add: call_loop.simps [of c wire attempt])
      with "1.prems" attempt_body_no_post(1) [OF Done] have "k = attempt" by auto
      with False triv show ?thesis by auto
    next
      case (Retry evs)
      with False have eq: "call_loop c wire attempt =
          then_events (Post attempt # evs) (call_loop c wire (Suc attempt))"
        by (simp add: call_loop.simps [of c wire attempt])
      show ?thesis
      proof (cases "k = attempt")
        case True
        with False triv show ?thesis by auto
      next
        case ne: False
        with "1.prems" eq attempt_body_no_post(2) [OF Retry]
        have "Post k \<in> set (snd (call_loop c wire (Suc attempt)))"
          by (auto simp: then_events_def)
        from "1.IH" [OF False Retry this] obtain pre where
          k: "k < max_retries c" and
          pre: "call_loop c wire (Suc attempt) = then_events pre (call_loop c wire k)"
            "Post k \<notin> set pre"
          by blast
        have "call_loop c wire attempt =
            then_events (Post attempt # evs @ pre) (call_loop c wire k)"
          by (simp add: eq pre(1) then_events_def)
        moreover have "Post k \<notin> set (Post attempt # evs @ pre)"
          using ne pre(2) attempt_body_no_post(2) [OF Retry] by auto
        ultimately show ?thesis using k by blast
      qed
    qed
  qed
qed

lemma fatal_attempt:
  assumes "k < max_retries c" and "wire k = Response r"
    and "sublist ''application/json'' (content_type r)" and "status r < 400"
    and "data_error (json r) = Some e" and "error_code e \<noteq> Some 6" and "error_code e \<noteq> Some 29"
  shows "call_loop c wire k =
     (Inl (ApiError (case error_msg e of None \<Rightarrow> ''Unknown API error'' | Some m \<Rightarrow> m)
             (error_code e)), [Post k])"
  using assms
  by (simp add: call_loop.simps [of c wire k] attempt_body_def on_api_error_def Let_def)

text \<open>
  Claim C6, as amended. For every call, if the response to an attempt that is made has a JSON
  content type and an HTTP status below 400 and carries an API error object whose code is
  neither 6 nor 29, the call fails on that attempt with the error of line 104: the post of
  that attempt is the last event of the call, so no sleep follows and no further attempt is
  made, whatever retry budget remains.
\<close>

theorem fatal_api_error_is_not_retried:
  assumes "Post k \<in> set (snd (call_method c wire))"
    and "wire k = Response r"
    and "sublist ''application/json'' (content_type r)" and "status r < 400"
    and "data_error (json r) = Some e" and "error_code e \<noteq> Some 6" and "error_code e \<noteq> Some 29"
  shows "\<exists>pre. Post k \<notin> set pre \<and>
     call_method c wire =
       (Inl (ApiError (case error_msg e of None \<Rightarrow> ''Unknown API error'' | Some m \<Rightarrow> m)
               (error_code e)), pre @ [Post k])"
proof -
  from call_loop_reaches [of k c wire 0] assms(1) obtain pre where
    k: "k < max_retries c" and
    pre: "call_method c wire = then_events pre (call_loop c wire k)" "Post k \<notin> set pre"
    unfolding call_method_def by blast
  from fatal_attempt [of k c wire r e, OF k assms(2-7)] pre show ?thesis
    by (auto simp: then_events_def)
qed

lemma json_content_type: "sublist ''application/json'' ''application/json; charset=utf-8''"
  by code_simp

lemma demo_fatal_call:
  "call_method demo_client fatal_wire = (Inl (ApiError ''failed'' (Some 5)), [Post 0])"
  by (simp add: call_method_def call_loop.simps [of _ _ 0] attempt_body_def fatal_wire_def
      demo_client_def error_response_def json_content_type on_api_error_def)

theorem fatal_api_error_is_not_retried_witness:
  "Post 0 \<in> set (snd (call_method demo_client fatal_wire))
   \<and> fatal_wire 0 = Response (error_response 200 5)
   \<and> call_method demo_client fatal_wire = (Inl (ApiError ''failed'' (Some 5)), [Post 0])"
proof -
  have h1: "Post 0 \<in> set (snd (call_method demo_client fatal_wire))"
    by (simp add: demo_fatal_call)
  have h2: "fatal_wire 0 = Response (error_response 200 5)"
    by (simp add: fatal_wire_def)
  have h3: "sublist ''application/json'' (content_type (error_response 200 5 :: string http_response))"
    by (simp add: error_response_def json_content_type)
  have h4: "status (error_response 200 5 :: string http_response) < 400"
    by (simp add: error_response_def)
  have h5: "data_error (json (error_response 200 5 :: string http_response))
      = Some \<lparr>error_code = Some 5, error_msg = Some ''failed''\<rparr>"
    by (simp add: error_response_def)
  have h6: "error_code \<lparr>error_code = Some 5, error_msg = Some ''failed''\<rparr> \<noteq> Some 6" by simp
  have h7: "error_code \<lparr>error_code = Some 5, error_msg = Some ''failed''\<rparr> \<noteq> Some 29" by simp
  show ?thesis
    using h2 fatal_api_error_is_not_retried [OF h1 h2 h3 h4 h5 h6 h7]
    by (simp add: demo_fatal_call)
qed

text \<open>
  The claim as stated speaks of every response that carries such an error object. With HTTP
  status 500, \<open>raise_for_status\<close> at line 94 raises before line 95 looks at the body; the
  handler of line 110 sleeps and the loop posts again.
\<close>

theorem fatal_api_error_is_not_retried_counterexample:
  "status_wire 0 = Response (error_response 500 5)
   \<and> data_error (json (error_response 500 5 :: string http_response))
       = Some \<lparr>error_code = Some 5, error_msg = Some ''failed''\<rparr>
   \<and> call_method demo_client status_wire
       = (Inr (Some ''payload''), [Post 0, Backoff 1, Post 1, Politeness 0.37])"
  by (simp add: call_method_def call_loop.simps [of _ _ 0] call_loop.simps [of _ _ "Suc 0"]
      attempt_body_def status_wire_def demo_client_def error_response_def ok_response_def
      json_content_type on_client_error_def then_events_def)

lemma throttled_attempt:
  assumes "attempt < max_retries c - 1"
    and "data_error (json r) = Some e" and "error_code e = Some 6"
  shows "attempt_body c (Response r) attempt = Retry [Backoff (base_retry_delay_s c * 2 ^ attempt)]"
  using assms
  by (simp add: attempt_body_def on_api_error_def on_client_error_def Let_def)

text \<open>
  Claim C7. For a client with \<open>max_retries\<close> at least 3 whose first two responses carry API
  error code 6 and whose third succeeds, the call returns the payload of the third response,
  and the backoff slept over the failed attempts is \<open>base_retry_delay_s * 2^0\<close> then
  \<open>base_retry_delay_s * 2^1\<close>, in total \<open>base_retry_delay_s * (2^0 + 2^1)\<close>.
\<close>

theorem throttled_twice_then_success:
  assumes "3 \<le> max_retries c"
    and "wire 0 = Response r0" and "data_error (json r0) = Some e0" and "error_code e0 = Some 6"
    and "wire 1 = Response r1" and "data_error (json r1) = Some e1" and "error_code e1 = Some 6"
    and "wire 2 = Response r2" and "sublist ''application/json'' (content_type r2)"
    and "status r2 < 400" and "data_error (json r2) = None"
  shows "fst (call_method c wire) = Inr (data_response (json r2))
       \<and> snd (call_method c wire) =
           [Post 0, Backoff (base_retry_delay_s c * 2 ^ 0), Post 1,
            Backoff (base_retry_delay_s c * 2 ^ 1), Post 2]
           @ (case delay_after_api_call_seconds c of None \<Rightarrow> [] | Some d \<Rightarrow> [Politeness d])
       \<and> backoff_total (snd (call_method c wire)) = base_retry_delay_s c * (2 ^ 0 + 2 ^ 1)"
proof -
  let ?b = "base_retry_delay_s c"
  let ?p = "case delay_after_api_call_seconds c of None \<Rightarrow> [] | Some d \<Rightarrow> [Politeness d]"
  have w1: "wire (Suc 0) = Response r1" using assms(5) by simp
  have w2: "wire (Suc (Suc 0)) = Response r2" using assms(8) by (simp add: numeral_2_eq_2)
  have a0: "attempt_body c (Response r0) 0 = Retry [Backoff (?b * 2 ^ 0)]"
    using assms(1) by (intro throttled_attempt [OF _ assms(3,4)]) simp
  have a1: "attempt_body c (Response r1) (Suc 0) = Retry [Backoff (?b * 2 ^ Suc 0)]"
    using assms(1) by (intro throttled_attempt [OF _ assms(6,7)]) simp
  have a2: "attempt_body c (Response r2) (Suc (Suc 0)) = Done (Inr (data_response (json r2))) ?p"
    using assms(9-11) by (simp add: attempt_body_def)
  have l2: "call_loop c wire (Suc (Suc 0)) =
      (Inr (data_response (json r2)), Post (Suc (Suc 0)) # ?p)"
    using assms(1) by (simp add: call_loop.simps [of c wire "Suc (Suc 0)"] w2 a2)
  have l1: "call_loop c wire (Suc 0) =
      (Inr (data_response (json r2)),
       [Post (Suc 0), Backoff (?b * 2 ^ Suc 0), Post (Suc (Suc 0))] @ ?p)"
    using assms(1) by (simp add: call_loop.simps [of c wire "Suc 0"] w1 a1 l2 then_events_def)
  have l0: "call_loop c wire 0 =
      (Inr (data_response (json r2)),
       [Post 0, Backoff (?b * 2 ^ 0), Post (Suc 0), Backoff (?b * 2 ^ Suc 0),
        Post (Suc (Suc 0))] @ ?p)"
    using assms(1) by (simp add: call_loop.simps [of c wire 0] assms(2) a0 l1 then_events_def)
  show ?thesis
    by (simp add: call_method_def l0 backoff_total_def numeral_2_eq_2 algebra_simps
        split: option.splits)
qed


theorem throttled_twice_then_success_witness:
  "3 \<le> max_retries demo_client
   \<and> throttled_wire 0 = Response (error_response 200 6)
   \<and> throttled_wire 1 = Response (error_response 200 6)
   \<and> throttled_wire 2 = Response (ok_response ''payload'')
   \<and> fst (call_method demo_client throttled_wire) = Inr (Some ''payload'')
   \<and> backoff_total (snd (call_method demo_client throttled_wire)) = 3"
proof -
  have h1: "3 \<le> max_retries demo_client" by (simp add: demo_client_def)
  have h2: "throttled_wire 0 = Response (error_response 200 6)" by (simp add: throttled_wire_def)
  have h3: "data_error (json (error_response 200 6 :: string http_response))
      = Some \<lparr>error_code = Some 6, error_msg = Some ''failed''\<rparr>"
    by (simp add: error_response_def)
  have h4: "error_code \<lparr>error_code = Some 6, error_msg = Some ''failed''\<rparr> = Some 6" by simp
  have h5: "throttled_wire 1 = Response (error_response 200 6)" by (simp add: throttled_wire_def)
  have h8: "throttled_wire 2 = Response (ok_response ''payload'')" by (simp add: throttled_wire_def)
  have h9: "sublist ''application/json'' (content_type (ok_response ''payload''))"
    by (simp add: ok_response_def json_content_type)
  have h10: "status (ok_response ''payload'') < 400" by (simp add: ok_response_def)
  have h11: "data_error (json (ok_response ''payload'')) = None" by (simp add: ok_response_def)
  show ?thesis
    using h1 h2 h5 h8 throttled_twice_then_success [OF h1 h2 h3 h4 h5 h3 h4 h8 h9 h10 h11]
    by (simp add: demo_client_def ok_response_def backoff_total_def)
qed

section \<open>The group fetcher: what is written\<close>

lemma write_entries_handed:
  "write_entries w k es handed n = (oc, handed', n') \<Longrightarrow>
   \<exists>m\<le>length es. handed' = handed @ take m es
     \<and> (oc = Written \<longrightarrow> m = length es \<and> n' = n + length es)"
proof (induction es arbitrary: k handed n)
  case Nil
  then show ?case by auto
next
  case (Cons e es)
  show ?case
  proof (cases "w k")
    case Written
    with Cons.prems have "write_entries w (Suc k) es (handed @ [e]) (n + 1) = (oc, handed', n')"
      by simp
    from Cons.IH [OF this] obtain m where m: "m \<le> length es" "handed' = (handed @ [e]) @ take m es"
      "oc = Written \<longrightarrow> m = length es \<and> n' = n + 1 + length es"
      by blast
    show ?thesis
    proof (intro exI [of _ "Suc m"] conjI)
      show "Suc m \<le> length (e # es)" using m(1) by simp
      show "handed' = handed @ take (Suc m) (e # es)" using m(2) by simp
      show "oc = Written \<longrightarrow> Suc m = length (e # es) \<and> n' = n + length (e # es)"
        using m(3) by simp
    qed
  next
    case RaisesIOError
    with Cons.prems show ?thesis by (intro exI [of _ "Suc 0"]) auto
  next
    case RaisesOther
    with Cons.prems show ?thesis by (intro exI [of _ 0]) auto
  qed
qed

lemma write_entries_all_written:
  "\<forall>j<length es. w (k + j) = Written \<Longrightarrow>
   write_entries w k es handed n = (Written, handed @ es, n + length es)"
proof (induction es arbitrary: k handed n)
  case Nil
  then show ?case by simp
next
  case (Cons e es)
  have w0: "w k = Written" using Cons.prems [rule_format, of 0] by simp
  have "\<forall>j<length es. w (Suc k + j) = Written"
    using Cons.prems [rule_format, of "Suc j" for j] by simp
  from Cons.IH [OF this, of "handed @ [e]" "n + 1"] w0 show ?case by simp
qed


lemma reached_shape:
  "\<exists>written tail. reached env handed = map Line written @ map Torn tail
     \<and> length tail \<le> 1 \<and> prefix (written @ tail) handed"
proof (cases "torn_tail env \<and> reached_file env < length handed")
  case True
  then have "take (reached_file env) handed @ [handed ! reached_file env]
      = take (Suc (reached_file env)) handed"
    by (simp add: take_Suc_conv_app_nth)
  then have "prefix (take (reached_file env) handed @ [handed ! reached_file env]) handed"
    by (simp add: take_is_prefix)
  with True show ?thesis
    by (intro exI [of _ "take (reached_file env) handed"]
        exI [of _ "[handed ! reached_file env]"]) (simp add: reached_def)
next
  case False
  then show ?thesis
    by (intro exI [of _ "take (reached_file env) handed"] exI [of _ "[]"])
      (auto simp: reached_def take_is_prefix)
qed

lemma post_build_entry: "map post (map (build_entry env info) ps) = ps"
  by (induction ps) (simp_all add: build_entry_def)

lemma post_build_entry_comp: "map (post \<circ> build_entry env info) ps = ps"
  using post_build_entry [of env info ps] by simp

text \<open>
  Whatever the task meets, the file keeps what it held and gains whole lines of a prefix of
  the reversed batch, followed by at most one torn piece of the next entry; the count
  returned is at most the number of whole lines gained.
\<close>

lemma process_result:
  assumes "process_and_write_to_file env store = (r, store')"
  shows "\<exists>written tail. store' = store @ map Line written @ map Torn tail
     \<and> length tail \<le> 1
     \<and> prefix (map post (written @ tail)) (rev (parse_posts env))
     \<and> (case r of Saved n \<Rightarrow> n \<le> length written | Raised \<Rightarrow> True)"
proof (cases "fetch_group_info env")
  case None
  with assms have "store' = store @ map Line [] @ map Torn []" "r = Saved 0"
    by (auto simp: process_and_write_to_file_def)
  then show ?thesis by (intro exI [of _ "[]"]) auto
next
  case (Some info)
  define entries where "entries = map (build_entry env info) (parse_posts env)"
  have pe: "map post (rev entries) = rev (parse_posts env)"
    by (simp add: entries_def rev_map post_build_entry_comp)
  show ?thesis
  proof (cases "parse_posts env = [] \<or> \<not> open_append env")
    case True
    with assms Some have "store' = store @ map Line [] @ map Torn []" "r = Saved 0"
      by (auto simp: process_and_write_to_file_def Let_def split: if_splits)
    then show ?thesis by (intro exI [of _ "[]"]) auto
  next
    case False
    obtain oc handed n where we:
      "write_entries (write_result env) 0 (rev entries) [] 0 = (oc, handed, n)"
      by (cases "write_entries (write_result env) 0 (rev entries) [] 0") auto
    from write_entries_handed [OF we] obtain m where
      m: "handed = take m (rev entries)" "oc = Written \<longrightarrow> m = length (rev entries) \<and> n = length (rev entries)"
      by auto
    have ph: "prefix handed (rev entries)" by (simp add: m(1) take_is_prefix)
    have res: "(r, store') =
        (if oc = Written \<and> close_ok env then (Saved n, store @ map Line handed)
         else if oc = RaisesOther \<and> close_ok env then (Raised, store @ map Line handed)
         else (Saved 0, store @ reached env handed))"
      using assms Some False we
      by (simp add: process_and_write_to_file_def Let_def entries_def)
    show ?thesis
    proof (cases "close_ok env \<and> (oc = Written \<or> oc = RaisesOther)")
      case True
      with res have s: "store' = store @ map Line handed @ map Torn []"
        and r: "r = Saved n \<and> oc = Written \<or> r = Raised"
        by (auto split: if_splits)
      have "prefix (map post (handed @ [])) (rev (parse_posts env))"
        using ph pe by (metis append_Nil2 map_mono_prefix)
      moreover have "case r of Saved k \<Rightarrow> k \<le> length handed | Raised \<Rightarrow> True"
        using r m by auto
      ultimately show ?thesis using s by (intro exI [of _ handed] exI [of _ "[]"]) simp
    next
      case False
      with res have s: "store' = store @ reached env handed" and r: "r = Saved 0"
        by (auto split: if_splits)
      from reached_shape [of env handed] obtain written tail where
        wt: "reached env handed = map Line written @ map Torn tail" "length tail \<le> 1"
          "prefix (written @ tail) handed"
        by blast
      have "prefix (written @ tail) (rev entries)" using wt(3) ph by (rule prefix_order.trans)
      then have "prefix (map post (written @ tail)) (rev (parse_posts env))"
        using pe by (metis map_mono_prefix)
      then show ?thesis using s r wt(1,2) by (intro exI [of _ written] exI [of _ tail]) simp
    qed
  qed
qed

lemma ascending_prefix:
  assumes "newest_first ps" and "prefix (map post written) (rev ps)"
  shows "ascending written"
proof -
  have "sorted_wrt (\<lambda>p q. date p \<le> date q) (rev ps)"
    using assms(1) by (simp add: newest_first_def sorted_wrt_rev)
  moreover from assms(2) obtain zs where "rev ps = map post written @ zs"
    by (auto simp: prefix_def)
  ultimately have "sorted_wrt (\<lambda>p q. date p \<le> date q) (map post written)"
    by (simp add: sorted_wrt_append)
  then show ?thesis by (simp add: ascending_def sorted_wrt_map)
qed

lemma items_eq:
  "map Line xs @ map Torn ys = map Line xs' @ map Torn ys' \<Longrightarrow> xs = xs' \<and> ys = ys'"
proof (induction xs arbitrary: xs')
  case Nil
  then show ?case
  proof (cases xs')
    case Nil
    with Nil.prems show ?thesis by (simp add: inj_on_def)
  next
    case (Cons a list)
    with Nil.prems show ?thesis by (cases ys) auto
  qed
next
  case (Cons a xs)
  then show ?case by (cases xs'; cases ys') auto
qed

lemma process_success:
  assumes "fetch_group_info env = Some info" and "open_append env" and "close_ok env"
    and "\<forall>k<length (parse_posts env). write_result env k = Written"
  shows "process_and_write_to_file env store =
     (Saved (length (parse_posts env)),
      store @ map Line (rev (map (build_entry env info) (parse_posts env))))"
proof -
  define entries where "entries = map (build_entry env info) (parse_posts env)"
  have "\<forall>j<length (rev entries). write_result env (0 + j) = Written"
    using assms(4) by (simp add: entries_def)
  from write_entries_all_written [OF this, of "[]" 0]
  show ?thesis
    using assms(1-3)
    by (cases "parse_posts env = []")
      (simp_all add: process_and_write_to_file_def Let_def entries_def)
qed

lemma demo_process:
  "process_and_write_to_file demo_env [] =
     (Saved 3, [Line (demo_entry 1 100), Line (demo_entry 2 200), Line (demo_entry 3 300)])"
  by (simp add: process_and_write_to_file_def demo_env_def demo_entry_def demo_info_def
      demo_post_def build_entry_def Let_def)




text \<open>
  Claim C8. For every group whose collected post list is ordered newest first, the records
  the task appends to the output file are in ascending order of timestamp: the whole lines
  it leaves are a prefix of the reversed batch (a torn piece of the next entry may follow
  them when an \<open>IOError\<close> ends the block), and they are the whole reversed batch when the
  group is resolved, the file opens, every write returns and the close succeeds.
\<close>

theorem written_in_ascending_order:
  assumes "newest_first (parse_posts env)"
    and "process_and_write_to_file env store = (r, store')"
  shows "\<exists>written tail. store' = store @ map Line written @ map Torn tail
       \<and> length tail \<le> 1
       \<and> ascending written
       \<and> prefix (map post written) (rev (parse_posts env))
       \<and> prefix (map post (written @ tail)) (rev (parse_posts env))
       \<and> (fetch_group_info env \<noteq> None \<and> open_append env
            \<and> (\<forall>k<length (parse_posts env). write_result env k = Written)
            \<and> close_ok env
          \<longrightarrow> map post written = rev (parse_posts env) \<and> tail = [])"
proof -
  from process_result [OF assms(2)] obtain written tail where
    w: "store' = store @ map Line written @ map Torn tail" "length tail \<le> 1"
      "prefix (map post (written @ tail)) (rev (parse_posts env))"
    by blast
  have pw: "prefix (map post written) (rev (parse_posts env))"
    using w(3) by (simp add: append_prefixD)
  have asc: "ascending written" using assms(1) pw by (rule ascending_prefix)
  have full: "map post written = rev (parse_posts env) \<and> tail = []"
    if "fetch_group_info env \<noteq> None" "open_append env"
      "\<forall>k<length (parse_posts env). write_result env k = Written" "close_ok env"
  proof -
    from that(1) obtain info where info: "fetch_group_info env = Some info" by auto
    define entries where "entries = map (build_entry env info) (parse_posts env)"
    from process_success [OF info that(2,4,3), of store] assms(2) w(1)
    have "map Line written @ map Torn tail = map Line (rev entries)"
      by (simp add: entries_def)
    then have "map Line written @ map Torn tail = map Line (rev entries) @ map Torn []"
      by simp
    then have "written = rev entries \<and> tail = []" by (rule items_eq)
    then show ?thesis by (simp add: entries_def rev_map post_build_entry_comp)
  qed
  from w(1,2) asc pw w(3) full show ?thesis by blast
qed

theorem written_in_ascending_order_witness:
  "newest_first (parse_posts demo_env)
   \<and> process_and_write_to_file demo_env []
       = (Saved 3, [Line (demo_entry 1 100), Line (demo_entry 2 200), Line (demo_entry 3 300)])
   \<and> (\<exists>written. [Line (demo_entry 1 100), Line (demo_entry 2 200), Line (demo_entry 3 300)]
          = [] @ map Line written
        \<and> ascending written
        \<and> map post written = rev (parse_posts demo_env))"
proof -
  have h1: "newest_first (parse_posts demo_env)"
    by (simp add: newest_first_def demo_env_def demo_post_def)
  have full: "fetch_group_info demo_env \<noteq> None \<and> open_append demo_env
      \<and> (\<forall>k<length (parse_posts demo_env). write_result demo_env k = Written)
      \<and> close_ok demo_env"
    by (simp add: demo_env_def)
  from written_in_ascending_order [OF h1 demo_process] full obtain written tail where
    "[Line (demo_entry 1 100), Line (demo_entry 2 200), Line (demo_entry 3 300)]
       = [] @ map Line written @ map Torn tail"
    "ascending written" "map post written = rev (parse_posts demo_env)" "tail = []"
    by blast
  then show ?thesis using h1 demo_process by auto
qed




lemma open_error_returns_zero:
  "\<not> open_append env \<Longrightarrow> process_and_write_to_file env store = (Saved 0, store)"
  by (simp add: process_and_write_to_file_def Let_def split: option.splits)

section \<open>The coordinator: the result of a run\<close>












end
